theory Spec2Isabelle
  imports Complex_Main "HOL-Library.Word"
begin

section \<open>The atlas packer of generate\_atlas.py\<close>

text \<open>
  A shallow embedding of \<^verbatim>\<open>pack_images\<close> (src/generate\_atlas.py, lines 22--70) and of
  the rectangle table that \<^verbatim>\<open>main\<close> builds from its result (lines 141--149).

  Python's integers are unbounded, so every coordinate, size and padding is an \<open>int\<close>.
  \<^verbatim>\<open>math.sqrt\<close> is modelled by the real square root: the rounding of the
  double-precision library function, which differs from it only for areas of \<open>2^52\<close> and
  more, and the OverflowError of the conversion of integers beyond the range of a double
  are not part of the model.
\<close>

subsection \<open>Images\<close>

text \<open>
  An RGBA texel has four channels of eight bits. A PIL image is its size together with its
  texels; \<open>pixels im x y\<close> is the texel that \<^verbatim>\<open>im.getpixel((x, y))\<close> reads, and only the
  values inside \<open>[0, width) \<times> [0, height)\<close> belong to the image.
\<close>

type_synonym rgba = "8 word \<times> 8 word \<times> 8 word \<times> 8 word"

record image =
  width :: int
  height :: int
  pixels :: "int \<Rightarrow> int \<Rightarrow> rgba"

datatype py_error = ValueError | TypeError | IndexError

text \<open>\<^verbatim>\<open>Image.new("RGBA", (w, h), color)\<close>: every texel has the given colour.\<close>

definition image_new :: "int \<Rightarrow> int \<Rightarrow> rgba \<Rightarrow> image" where
  "image_new w h color = \<lparr>width = w, height = h, pixels = (\<lambda>x y. color)\<rparr>"

text \<open>\<^verbatim>\<open>im.getpixel((x, y))\<close> raises IndexError outside the image.\<close>

definition getpixel :: "image \<Rightarrow> int \<times> int \<Rightarrow> py_error + rgba" where
  "getpixel im xy =
     (case xy of (x, y) \<Rightarrow>
        if 0 \<le> x \<and> x < width im \<and> 0 \<le> y \<and> y < height im
        then Inr (pixels im x y) else Inl IndexError)"

text \<open>
  \<^verbatim>\<open>atlas.paste(img, (x, y))\<close> without a mask: the region
  \<open>[x, x + width img) \<times> [y, y + height img)\<close> of the atlas is overwritten with the texels of
  \<open>img\<close>; the part of the region that lies outside the atlas is clipped away.
\<close>

definition paste :: "image \<Rightarrow> image \<Rightarrow> int \<times> int \<Rightarrow> image" where
  "paste atlas img xy =
     (case xy of (x, y) \<Rightarrow>
        atlas\<lparr>pixels := (\<lambda>px py.
          if x \<le> px \<and> px < x + width img \<and> y \<le> py \<and> py < y + height img
             \<and> 0 \<le> px \<and> px < width atlas \<and> 0 \<le> py \<and> py < height atlas
          then pixels img (px - x) (py - y)
          else pixels atlas px py)\<rparr>)"

subsection \<open>Integer helpers of the Python runtime\<close>

text \<open>\<^verbatim>\<open>int.bit_length()\<close>: the number of bits of the absolute value.\<close>

fun bitlen :: "nat \<Rightarrow> nat" where
  "bitlen n = (if n = 0 then 0 else Suc (bitlen (n div 2)))"

declare bitlen.simps [simp del]

definition bit_length :: "int \<Rightarrow> nat" where
  "bit_length n = bitlen (nat \<bar>n\<bar>)"

text \<open>
  \<^verbatim>\<open>int(math.ceil(math.sqrt(a)))\<close>; \<^verbatim>\<open>math.sqrt\<close> raises ValueError on a negative
  argument.
\<close>

definition ceil_sqrt :: "int \<Rightarrow> py_error + int" where
  "ceil_sqrt a = (if a < 0 then Inl ValueError else Inr \<lceil>sqrt (of_int a)\<rceil>)"

text \<open>
  \<^verbatim>\<open>sorted(xs, key=key, reverse=True)\<close>. CPython keeps a reversed sort stable by
  reversing the list, sorting it with the stable ascending sort, and reversing the result.
\<close>

definition sorted_reverse :: "('a \<Rightarrow> int) \<Rightarrow> 'a list \<Rightarrow> 'a list" where
  "sorted_reverse key xs = rev (sort_key key (rev xs))"

subsection \<open>pack\_images\<close>

text \<open>Line 31: the indices of the images, by height descending.\<close>

definition sorted_indices :: "image list \<Rightarrow> nat list" where
  "sorted_indices images =
     sorted_reverse (\<lambda>i. height (images ! i)) [0..<length images]"

text \<open>Line 34.\<close>

definition total_area :: "image list \<Rightarrow> int \<Rightarrow> int" where
  "total_area images padding =
     sum_list (map (\<lambda>img. (width img + padding) * (height img + padding)) images)"

text \<open>Lines 35--38: the estimated width, \<^verbatim>\<open>1 << (atlas_width - 1).bit_length()\<close>.\<close>

definition estimate_width :: "image list \<Rightarrow> int \<Rightarrow> py_error + int" where
  "estimate_width images padding =
     (case ceil_sqrt (total_area images padding) of
        Inl e \<Rightarrow> Inl e
      | Inr atlas_width \<Rightarrow> Inr (push_bit (bit_length (atlas_width - 1)) 1))"

text \<open>The variables of the shelf packer (lines 40--45).\<close>

record pack_state =
  current_x :: int
  current_y :: int
  row_height :: int
  positions :: "(int \<times> int) option list"

definition init_state :: "image list \<Rightarrow> int \<Rightarrow> pack_state" where
  "init_state images padding =
     \<lparr>current_x = padding, current_y = padding, row_height = 0,
      positions = replicate (length images) None\<rparr>"

text \<open>One iteration of the loop of lines 47--56.\<close>

definition place :: "image list \<Rightarrow> int \<Rightarrow> int \<Rightarrow> pack_state \<Rightarrow> nat \<Rightarrow> pack_state" where
  "place images padding atlas_width s idx =
     (let img = images ! idx;
          s1 = (if current_x s + width img + padding > atlas_width
                then s\<lparr>current_x := padding,
                       current_y := current_y s + row_height s + padding,
                       row_height := 0\<rparr>
                else s)
      in s1\<lparr>positions := (positions s1)[idx := Some (current_x s1, current_y s1)],
            row_height := max (row_height s1) (height img),
            current_x := current_x s1 + width img + padding\<rparr>)"

fun shelf_loop :: "image list \<Rightarrow> int \<Rightarrow> int \<Rightarrow> nat list \<Rightarrow> pack_state \<Rightarrow> pack_state" where
  "shelf_loop images padding atlas_width [] s = s"
| "shelf_loop images padding atlas_width (idx # rest) s =
     shelf_loop images padding atlas_width rest (place images padding atlas_width s idx)"

text \<open>
  Lines 66--68: the images are pasted in input order. Unpacking an entry of \<open>positions\<close>
  that is still \<^verbatim>\<open>None\<close> raises TypeError.
\<close>

fun paste_all :: "image list \<Rightarrow> (int \<times> int) option list \<Rightarrow> nat \<Rightarrow> image \<Rightarrow> py_error + image" where
  "paste_all [] pos idx atlas = Inr atlas"
| "paste_all (img # rest) pos idx atlas =
     (case pos ! idx of
        None \<Rightarrow> Inl TypeError
      | Some xy \<Rightarrow> paste_all rest pos (Suc idx) (paste atlas img xy))"

definition transparent :: rgba where
  "transparent = (0, 0, 0, 0)"

text \<open>Lines 58--63: the side of the square sheet, from the state the loop ends in.\<close>

definition final_size :: "int \<Rightarrow> int \<Rightarrow> pack_state \<Rightarrow> int" where
  "final_size padding atlas_width s =
     (let atlas_height = current_y s + row_height s + padding;
          max_dim = max atlas_width atlas_height
      in push_bit (bit_length (max_dim - 1)) 1)"

definition pack_images :: "image list \<Rightarrow> int \<Rightarrow> py_error + image \<times> (int \<times> int) option list" where
  "pack_images images padding =
     (if images = [] then Inr (image_new 1 1 transparent, [])
      else
        case estimate_width images padding of
          Inl e \<Rightarrow> Inl e
        | Inr atlas_width \<Rightarrow>
            (let s = shelf_loop images padding atlas_width (sorted_indices images)
                       (init_state images padding);
                 side = final_size padding atlas_width s
             in (case paste_all images (positions s) 0 (image_new side side transparent) of
                   Inl e \<Rightarrow> Inl e
                 | Inr atlas \<Rightarrow> Inr (atlas, positions s))))"

text \<open>
  Lines 141--149 of \<^verbatim>\<open>main\<close>: the rectangle \<open>(x, y, width, height)\<close> written for the
  \<open>i\<close>-th image.
\<close>

definition icon_rect :: "image list \<Rightarrow> (int \<times> int) option list \<Rightarrow> nat \<Rightarrow> py_error + int \<times> int \<times> int \<times> int" where
  "icon_rect images pos_map i =
     (case pos_map ! i of
        None \<Rightarrow> Inl TypeError
      | Some (x, y) \<Rightarrow> Inr (x, y, width (images ! i), height (images ! i)))"

section \<open>Notions used to state the properties\<close>

text \<open>\<open>r\<close> is the smallest power of two that is at least \<open>m\<close>.\<close>

definition smallest_pow2_ge :: "int \<Rightarrow> int \<Rightarrow> bool" where
  "smallest_pow2_ge m r \<longleftrightarrow> (\<exists>k::nat. r = 2 ^ k) \<and> m \<le> r \<and> (\<forall>j::nat. m \<le> 2 ^ j \<longrightarrow> r \<le> 2 ^ j)"

text \<open>
  An executable search for the ceiling of the square root: the least \<open>k\<close>, from the given
  start upwards, with \<open>n \<le> k * k\<close>. It gives \<open>ceil_sqrt\<close> a code equation.
\<close>

function sqrt_up :: "nat \<Rightarrow> nat \<Rightarrow> nat" where
  "sqrt_up k n = (if n \<le> k * k then k else sqrt_up (Suc k) n)"
  by pat_completeness auto

termination
proof (relation "measure (\<lambda>(k, n). n - k)")
  show "wf (measure (\<lambda>(k, n). n - k))" by simp
next
  fix k n :: nat
  assume "\<not> n \<le> k * k"
  then have "k * k < n" by simp
  moreover have "k \<le> k * k" by (cases k) simp_all
  ultimately have "k < n" by (rule le_less_trans[rotated])
  then show "((Suc k, n), (k, n)) \<in> measure (\<lambda>(k, n). n - k)" by simp
qed

text \<open>
  The scenario of the specification: img2 (20 x 50), img1 (40 x 30) and img3 (10 x 10), in
  this input order, with any texels.
\<close>

definition scenario :: "(int \<Rightarrow> int \<Rightarrow> rgba) \<Rightarrow> (int \<Rightarrow> int \<Rightarrow> rgba) \<Rightarrow> (int \<Rightarrow> int \<Rightarrow> rgba) \<Rightarrow> image list" where
  "scenario p2 p1 p3 =
     [\<lparr>width = 20, height = 50, pixels = p2\<rparr>,
      \<lparr>width = 40, height = 30, pixels = p1\<rparr>,
      \<lparr>width = 10, height = 10, pixels = p3\<rparr>]"

text \<open>
  The image \<open>i\<close>, placed at \<open>(x, y)\<close>, is settled in state \<open>s\<close>: it starts at or
  after the padding, and either it stands in the current row, left of the cursor and no
  taller than the row, or it ends, padding included, above the current row.
\<close>

definition settled :: "image list \<Rightarrow> int \<Rightarrow> pack_state \<Rightarrow> nat \<Rightarrow> int \<times> int \<Rightarrow> bool" where
  "settled images padding s i xy =
     (case xy of (x, y) \<Rightarrow>
        padding \<le> x \<and> padding \<le> y \<and>
        (y = current_y s \<and> x + width (images ! i) + padding \<le> current_x s
           \<and> height (images ! i) \<le> row_height s
         \<or> y + height (images ! i) + padding \<le> current_y s))"

text \<open>
  The rectangles \<open>a\<close> and \<open>b\<close>, given as \<open>(x, y, width, height)\<close>, are apart by the
  padding on the x axis or on the y axis.
\<close>

definition padded_disjoint :: "int \<Rightarrow> int \<times> int \<times> int \<times> int \<Rightarrow> int \<times> int \<times> int \<times> int \<Rightarrow> bool" where
  "padded_disjoint padding a b =
     (case a of (ax, ay, aw, ah) \<Rightarrow> case b of (bx, by, bw, bh) \<Rightarrow>
        ax + aw + padding \<le> bx \<or> ay + ah + padding \<le> by
        \<or> bx + bw + padding \<le> ax \<or> by + bh + padding \<le> ay)"

text \<open>The rectangle of image \<open>i\<close> placed at \<open>(x, y)\<close>.\<close>

definition rect_of :: "image list \<Rightarrow> nat \<Rightarrow> int \<times> int \<Rightarrow> int \<times> int \<times> int \<times> int" where
  "rect_of images i xy = (case xy of (x, y) \<Rightarrow> (x, y, width (images ! i), height (images ! i)))"

text \<open>
  The invariant of the loop of lines 47--56, for the set \<open>D\<close> of indices handled so far.
\<close>

definition shelf_inv :: "image list \<Rightarrow> int \<Rightarrow> nat set \<Rightarrow> pack_state \<Rightarrow> bool" where
  "shelf_inv images padding D s \<longleftrightarrow>
     length (positions s) = length images \<and> 0 \<le> row_height s
     \<and> padding \<le> current_x s \<and> padding \<le> current_y s
     \<and> (\<forall>i\<in>D. \<exists>xy. positions s ! i = Some xy \<and> settled images padding s i xy)
     \<and> (\<forall>i\<in>D. \<forall>j\<in>D. i \<noteq> j \<longrightarrow>
           (\<forall>a b. positions s ! i = Some a \<longrightarrow> positions s ! j = Some b \<longrightarrow>
              padded_disjoint padding (rect_of images i a) (rect_of images j b)))"

text \<open>The sizes a PIL image can have: width and height are at least 0.\<close>

definition nonneg_images :: "image list \<Rightarrow> bool" where
  "nonneg_images images \<longleftrightarrow> (\<forall>img\<in>set images. 0 \<le> width img \<and> 0 \<le> height img)"

text \<open>The images of the specification: width and height are positive.\<close>

definition valid_images :: "image list \<Rightarrow> bool" where
  "valid_images images \<longleftrightarrow> (\<forall>img\<in>set images. 0 < width img \<and> 0 < height img)"

text \<open>The state in which the loop of lines 47--56 ends, for the estimated width \<open>W\<close>.\<close>

definition packed_state :: "image list \<Rightarrow> int \<Rightarrow> int \<Rightarrow> pack_state" where
  "packed_state images padding W =
     shelf_loop images padding W (sorted_indices images) (init_state images padding)"

text \<open>Texels that are all transparent.\<close>

definition blank :: "int \<Rightarrow> int \<Rightarrow> rgba" where
  "blank x y = transparent"

text \<open>The layout part of a result: sheet width, sheet height and the positions.\<close>

definition result_layout :: "py_error + image \<times> (int \<times> int) option list \<Rightarrow> py_error + int \<times> int \<times> (int \<times> int) option list" where
  "result_layout r =
     (case r of Inl e \<Rightarrow> Inl e | Inr (atlas, pos) \<Rightarrow> Inr (width atlas, height atlas, pos))"

text \<open>
  The cursor recurrence in the words of the specification (section 4.2), over the sizes
  \<open>(width, height)\<close> of the images in processing order and with the cursor
  \<open>(cx, cy, row_height)\<close>: if \<open>cx + width + padding > W\<close> a new row starts
  (\<open>cx = padding\<close>, \<open>cy += row_height + padding\<close>, \<open>row_height = 0\<close>); the image is
  placed at \<open>(cx, cy)\<close>; then \<open>row_height = max row_height height\<close> and
  \<open>cx += width + padding\<close>. The result lists the positions in processing order.
\<close>

fun shelf_spec :: "int \<Rightarrow> int \<Rightarrow> int \<times> int \<times> int \<Rightarrow> (int \<times> int) list \<Rightarrow> (int \<times> int) list" where
  "shelf_spec padding W (cx, cy, rh) [] = []"
| "shelf_spec padding W (cx, cy, rh) ((w, h) # rest) =
     (if cx + w + padding > W
      then (padding, cy + rh + padding)
             # shelf_spec padding W (padding + w + padding, cy + rh + padding, max 0 h) rest
      else (cx, cy) # shelf_spec padding W (cx + w + padding, cy, max rh h) rest)"

text \<open>Width and height of the \<open>i\<close>-th image.\<close>

definition dims_of :: "image list \<Rightarrow> nat \<Rightarrow> int \<times> int" where
  "dims_of images i = (width (images ! i), height (images ! i))"

text \<open>Three images of which the first and the last have the same height.\<close>

definition ties :: "image list" where
  "ties = [image_new 20 30 transparent, image_new 40 50 transparent, image_new 10 30 transparent]"

text \<open>An opaque white texel.\<close>

definition white :: rgba where
  "white = (255, 255, 255, 255)"

text \<open>Two lists of images agree, image by image, in width and height.\<close>

definition same_dims :: "image list \<Rightarrow> image list \<Rightarrow> bool" where
  "same_dims a b \<longleftrightarrow> map width a = map width b \<and> map height a = map height b"

text \<open>The rectangle \<open>(x, y, w, h)\<close> lies inside a sheet of the given width and height.\<close>

definition inside_sheet :: "int \<times> int \<Rightarrow> int \<times> int \<times> int \<times> int \<Rightarrow> bool" where
  "inside_sheet sheet r =
     (case sheet of (sw, sh) \<Rightarrow> case r of (x, y, w, h) \<Rightarrow> x + w \<le> sw \<and> y + h \<le> sh)"

text \<open>Every image placed so far ends, padding included, within the estimated width.\<close>

definition fits_inv :: "image list \<Rightarrow> int \<Rightarrow> int \<Rightarrow> nat set \<Rightarrow> pack_state \<Rightarrow> bool" where
  "fits_inv images padding W D s \<longleftrightarrow>
     (\<forall>i\<in>D. \<exists>x y. positions s ! i = Some (x, y) \<and> x + width (images ! i) + padding \<le> W)"

text \<open>The texel \<open>(px, py)\<close> lies in the rectangle of size \<open>w\<close> x \<open>h\<close> at \<open>(x, y)\<close>.\<close>

definition in_rect :: "int \<times> int \<Rightarrow> int \<times> int \<times> int \<times> int \<Rightarrow> bool" where
  "in_rect p r =
     (case p of (px, py) \<Rightarrow> case r of (x, y, w, h) \<Rightarrow>
        x \<le> px \<and> px < x + w \<and> y \<le> py \<and> py < y + h)"

section \<open>Properties\<close>

subsection \<open>Bit length and the next power of two\<close>

lemma bitlen_upper: "n < 2 ^ bitlen n"
proof (induction n rule: bitlen.induct)
  case (1 n)
  show ?case
  proof (cases "n = 0")
    case True
    then show ?thesis by (simp add: bitlen.simps)
  next
    case False
    with 1 have "n div 2 < 2 ^ bitlen (n div 2)" by simp
    then have "n < 2 * 2 ^ bitlen (n div 2)" by linarith
    with False show ?thesis by (subst bitlen.simps) simp
  qed
qed

lemma bitlen_lower: "0 < n \<Longrightarrow> 2 ^ bitlen n \<le> 2 * n"
proof (induction n rule: bitlen.induct)
  case (1 n)
  show ?case
  proof (cases "n div 2 = 0")
    case True
    with 1(2) have "n = 1" by linarith
    then show ?thesis by (simp add: bitlen.simps)
  next
    case False
    with 1 have "2 ^ bitlen (n div 2) \<le> 2 * (n div 2)" by simp
    then have "2 * 2 ^ bitlen (n div 2) \<le> 2 * n" by linarith
    with 1(2) show ?thesis by (subst bitlen.simps) simp
  qed
qed

lemma next_pow2_ge: "m \<le> push_bit (bit_length (m - 1)) (1::int)"
proof (cases "m \<le> 0")
  case True
  then show ?thesis by (simp add: push_bit_eq_mult) (smt (verit) zero_less_power)
next
  case False
  then have "nat \<bar>m - 1\<bar> = nat (m - 1)" by simp
  moreover have "nat (m - 1) < 2 ^ bitlen (nat (m - 1))" by (rule bitlen_upper)
  ultimately have "int (nat (m - 1)) < 2 ^ bit_length (m - 1)"
    by (simp add: bit_length_def)
  with False show ?thesis by (simp add: push_bit_eq_mult)
qed

lemma next_pow2_least:
  assumes "1 \<le> m" "m \<le> 2 ^ j"
  shows "push_bit (bit_length (m - 1)) (1::int) \<le> 2 ^ j"
proof (cases "m = 1")
  case True
  then show ?thesis by (simp add: bit_length_def push_bit_eq_mult bitlen.simps)
next
  case False
  with assms have pos: "0 < nat (m - 1)" by simp
  have eq: "nat \<bar>m - 1\<bar> = nat (m - 1)" using assms by simp
  from bitlen_lower[OF pos] have "2 ^ bitlen (nat (m - 1)) \<le> 2 * nat (m - 1)" .
  then have "int (2 ^ bitlen (nat (m - 1))) \<le> int (2 * nat (m - 1))" by (rule iffD2[OF of_nat_le_iff])
  then have "(2::int) ^ bit_length (m - 1) \<le> 2 * (m - 1)"
    using assms by (simp add: bit_length_def eq)
  also have "\<dots> < 2 * 2 ^ j" using assms by simp
  finally have "(2::int) ^ bit_length (m - 1) < 2 ^ Suc j" by simp
  then have "bit_length (m - 1) < Suc j" by (simp only: power_strict_increasing_iff[of "2::int"])
  then have "bit_length (m - 1) \<le> j" by simp
  then have "(2::int) ^ bit_length (m - 1) \<le> 2 ^ j" by (simp add: power_increasing)
  then show ?thesis by (simp add: push_bit_eq_mult)
qed

subsection \<open>The ceiling of the square root\<close>

lemma ceil_sqrt_eqI:
  assumes "0 < k" "(k - 1)\<^sup>2 < a" "a \<le> k\<^sup>2"
  shows "ceil_sqrt a = Inr k"
proof -
  have a0: "0 \<le> a" using assms(2) by (smt (verit) zero_le_power2)
  have "real_of_int k - 1 < sqrt (of_int a)"
  proof (rule real_less_rsqrt)
    have "real_of_int ((k - 1)\<^sup>2) < real_of_int a" using assms(2) by (simp only: of_int_less_iff)
    then show "(real_of_int k - 1)\<^sup>2 < real_of_int a" by simp
  qed
  moreover have "sqrt (of_int a) \<le> real_of_int k"
  proof (rule real_le_lsqrt)
    show "0 \<le> real_of_int k" using assms(1) by simp
    have "real_of_int a \<le> real_of_int (k\<^sup>2)" using assms(3) by (simp only: of_int_le_iff)
    then show "real_of_int a \<le> (real_of_int k)\<^sup>2" by simp
  qed
  ultimately have "\<lceil>sqrt (of_int a)\<rceil> = k" by (rule ceiling_unique)
  with a0 show ?thesis by (simp add: ceil_sqrt_def)
qed

lemma ceil_sqrt_0: "ceil_sqrt 0 = Inr 0"
  by (simp add: ceil_sqrt_def)

declare sqrt_up.simps [simp del]

lemma sqrt_up_ceil_sqrt:
  "k = 0 \<or> (k - 1) * (k - 1) < n \<Longrightarrow> ceil_sqrt (int n) = Inr (int (sqrt_up k n))"
proof (induction k n rule: sqrt_up.induct)
  case (1 k n)
  show ?case
  proof (cases "n \<le> k * k")
    case True
    then have r: "sqrt_up k n = k" by (simp add: sqrt_up.simps)
    show ?thesis
    proof (cases "k = 0")
      case True
      with \<open>n \<le> k * k\<close> r show ?thesis by (simp add: ceil_sqrt_0)
    next
      case False
      with 1(2) have low: "(k - 1) * (k - 1) < n" by simp
      have "ceil_sqrt (int n) = Inr (int k)"
      proof (rule ceil_sqrt_eqI)
        show "0 < int k" using False by simp
        have "int ((k - 1) * (k - 1)) < int n" using low by (simp only: of_nat_less_iff)
        moreover have "int (k - 1) = int k - 1" using False by simp
        ultimately show "(int k - 1)\<^sup>2 < int n" by (simp add: power2_eq_square)
        have "int n \<le> int (k * k)" using True by (simp only: of_nat_le_iff)
        then show "int n \<le> (int k)\<^sup>2" by (simp add: power2_eq_square)
      qed
      with r show ?thesis by simp
    qed
  next
    case False
    then have "Suc k = 0 \<or> (Suc k - 1) * (Suc k - 1) < n" by simp
    from 1(1)[OF False this] False show ?thesis by (simp add: sqrt_up.simps[of k])
  qed
qed

lemma ceil_sqrt_code [code]:
  "ceil_sqrt a = (if a < 0 then Inl ValueError else Inr (int (sqrt_up 0 (nat a))))"
proof (cases "a < 0")
  case True
  then show ?thesis by (simp add: ceil_sqrt_def)
next
  case False
  then have "ceil_sqrt (int (nat a)) = Inr (int (sqrt_up 0 (nat a)))"
    by (intro sqrt_up_ceil_sqrt) simp
  with False show ?thesis by simp
qed

subsection \<open>The concrete scenario, step by step\<close>

lemma scenario_order: "sorted_indices (scenario p2 p1 p3) = [0, 1, 2]"
  by (simp add: sorted_indices_def sorted_reverse_def scenario_def upt_rec)

lemma scenario_area: "total_area (scenario p2 p1 p3) 2 = 2632"
  by (simp add: total_area_def scenario_def)

lemma scenario_width: "estimate_width (scenario p2 p1 p3) 2 = Inr 64"
proof -
  have "ceil_sqrt 2632 = Inr 52" by (rule ceil_sqrt_eqI) simp_all
  then show ?thesis by (simp add: estimate_width_def scenario_area bit_length_def bitlen.simps)
qed

lemma scenario_loop: "shelf_loop (scenario p2 p1 p3) 2 64 (sorted_indices (scenario p2 p1 p3)) (init_state (scenario p2 p1 p3) 2)
   = \<lparr>current_x = 56, current_y = 54, row_height = 30, positions = [Some (2, 2), Some (2, 54), Some (44, 54)]\<rparr>"
  by (simp add: scenario_order) (simp add: init_state_def place_def scenario_def Let_def)

lemma scenario_result: "\<exists>atlas. pack_images (scenario p2 p1 p3) 2 = Inr (atlas, [Some (2, 2), Some (2, 54), Some (44, 54)]) \<and> width atlas = 128 \<and> height atlas = 128"
proof -
  have ne: "scenario p2 p1 p3 \<noteq> []" by (simp add: scenario_def)
  have fs: "final_size 2 64 \<lparr>current_x = 56, current_y = 54, row_height = 30, positions = [Some (2, 2), Some (2, 54), Some (44, 54)]\<rparr> = 128"
    by (simp add: final_size_def bit_length_def bitlen.simps)
  have pa: "\<exists>atlas. paste_all (scenario p2 p1 p3) [Some (2, 2), Some (2, 54), Some (44, 54)] 0 (image_new 128 128 transparent) = Inr atlas \<and> width atlas = 128 \<and> height atlas = 128"
    by (simp add: scenario_def paste_def image_new_def)
  show ?thesis using pa
    by (auto simp add: pack_images_def ne scenario_width scenario_loop fs Let_def)
qed

subsection \<open>The invariant of the shelf loop\<close>

lemma shelf_inv_init: "shelf_inv images padding {} (init_state images padding)"
  by (simp add: shelf_inv_def init_state_def)

lemma place_fields:
  "current_y (place images padding W s idx) =
     (if current_x s + width (images ! idx) + padding > W then current_y s + row_height s + padding else current_y s)"
  "current_x (place images padding W s idx) =
     (if current_x s + width (images ! idx) + padding > W then padding else current_x s) + width (images ! idx) + padding"
  "row_height (place images padding W s idx) =
     max (if current_x s + width (images ! idx) + padding > W then 0 else row_height s) (height (images ! idx))"
  "positions (place images padding W s idx) =
     (positions s)[idx := Some (if current_x s + width (images ! idx) + padding > W then padding else current_x s,
                                if current_x s + width (images ! idx) + padding > W then current_y s + row_height s + padding else current_y s)]"
  by (simp_all add: place_def Let_def)

lemma settled_old:
  assumes "settled images padding s i xy" "0 \<le> padding" "0 \<le> width (images ! idx)" "0 \<le> row_height s"
  shows "settled images padding (place images padding W s idx) i xy"
  using assms by (cases xy) (auto simp add: settled_def place_fields)

lemma settled_new:
  assumes "0 \<le> padding" "padding \<le> current_x s" "padding \<le> current_y s" "0 \<le> row_height s"
  shows "settled images padding (place images padding W s idx) idx
           (if current_x s + width (images ! idx) + padding > W then padding else current_x s,
            if current_x s + width (images ! idx) + padding > W then current_y s + row_height s + padding else current_y s)"
  using assms by (auto simp add: settled_def place_fields)

lemma settled_disjoint_new:
  assumes "settled images padding s i a" "0 \<le> padding" "0 \<le> row_height s"
  shows "padded_disjoint padding (rect_of images i a)
           (rect_of images idx
             (if current_x s + width (images ! idx) + padding > W then padding else current_x s,
              if current_x s + width (images ! idx) + padding > W then current_y s + row_height s + padding else current_y s))"
  using assms by (cases a) (auto simp add: settled_def padded_disjoint_def rect_of_def)

lemma padded_disjoint_sym: "padded_disjoint p a b \<Longrightarrow> padded_disjoint p b a"
  by (cases a, cases b) (auto simp add: padded_disjoint_def)

lemma shelf_inv_place:
  assumes inv: "shelf_inv images padding D s"
    and idx: "idx < length images" "idx \<notin> D"
    and p: "0 \<le> padding"
    and nn: "0 \<le> width (images ! idx)" "0 \<le> height (images ! idx)"
  shows "shelf_inv images padding (insert idx D) (place images padding W s idx)"
proof -
  let ?s' = "place images padding W s idx"
  let ?new = "(if current_x s + width (images ! idx) + padding > W then padding else current_x s,
               if current_x s + width (images ! idx) + padding > W then current_y s + row_height s + padding else current_y s)"
  from inv have len: "length (positions s) = length images" and rh: "0 \<le> row_height s"
    and cx: "padding \<le> current_x s" and cy: "padding \<le> current_y s"
    and old: "\<And>i. i \<in> D \<Longrightarrow> \<exists>xy. positions s ! i = Some xy \<and> settled images padding s i xy"
    and dis: "\<And>i j a b. i \<in> D \<Longrightarrow> j \<in> D \<Longrightarrow> i \<noteq> j \<Longrightarrow> positions s ! i = Some a \<Longrightarrow> positions s ! j = Some b
                \<Longrightarrow> padded_disjoint padding (rect_of images i a) (rect_of images j b)"
    by (auto simp add: shelf_inv_def)
  have pos_new: "positions ?s' ! idx = Some ?new"
    using idx(1) len by (simp add: place_fields)
  have pos_old: "\<And>i. i \<noteq> idx \<Longrightarrow> positions ?s' ! i = positions s ! i"
    by (simp add: place_fields)
  have 1: "length (positions ?s') = length images" using len by (simp add: place_fields)
  have 2: "0 \<le> row_height ?s'" using rh nn by (simp add: place_fields)
  have 3: "padding \<le> current_x ?s'" using cx nn p by (simp add: place_fields)
  have 4: "padding \<le> current_y ?s'" using cy rh p by (simp add: place_fields)
  have 5: "\<exists>xy. positions ?s' ! i = Some xy \<and> settled images padding ?s' i xy" if "i \<in> insert idx D" for i
  proof (cases "i = idx")
    case True
    then show ?thesis using pos_new settled_new[OF p cx cy rh] by blast
  next
    case False
    with that have "i \<in> D" by simp
    from old[OF this] obtain xy where "positions s ! i = Some xy" "settled images padding s i xy" by blast
    then show ?thesis using pos_old[OF False] settled_old[OF _ p nn(1) rh] by auto
  qed
  have 6: "padded_disjoint padding (rect_of images i a) (rect_of images j b)"
    if "i \<in> insert idx D" "j \<in> insert idx D" "i \<noteq> j" "positions ?s' ! i = Some a" "positions ?s' ! j = Some b" for i j a b
  proof (cases "i = idx")
    case True
    with that have j: "j \<in> D" "j \<noteq> idx" by auto
    from that(5) pos_old[OF j(2)] have pj: "positions s ! j = Some b" by simp
    from old[OF j(1)] pj have "settled images padding s j b" by auto
    from settled_disjoint_new[OF this p rh, of idx W] that(4) True pos_new
    show ?thesis by (simp add: padded_disjoint_sym)
  next
    case False
    with that have i: "i \<in> D" by simp
    from that(4) pos_old[OF False] have pi: "positions s ! i = Some a" by simp
    show ?thesis
    proof (cases "j = idx")
      case True
      from old[OF i] pi have "settled images padding s i a" by auto
      from settled_disjoint_new[OF this p rh, of idx W] that(5) True pos_new
      show ?thesis by simp
    next
      case False
      with that have j: "j \<in> D" by simp
      from that(5) pos_old[OF False] have "positions s ! j = Some b" by simp
      from dis[OF i j that(3) pi this] show ?thesis .
    qed
  qed
  show ?thesis
    unfolding shelf_inv_def using 1 2 3 4 5 6 by blast
qed

lemma shelf_inv_loop:
  assumes "shelf_inv images padding D s" "distinct idxs" "set idxs \<inter> D = {}"
    "\<forall>i\<in>set idxs. i < length images" "0 \<le> padding" "nonneg_images images"
  shows "shelf_inv images padding (D \<union> set idxs) (shelf_loop images padding W idxs s)"
  using assms
proof (induction idxs arbitrary: D s)
  case Nil
  then show ?case by simp
next
  case (Cons idx rest)
  have idx: "idx < length images" "idx \<notin> D" using Cons.prems by auto
  then have nn: "0 \<le> width (images ! idx)" "0 \<le> height (images ! idx)"
    using Cons.prems(6) by (auto simp add: nonneg_images_def)
  have "shelf_inv images padding (insert idx D) (place images padding W s idx)"
    by (rule shelf_inv_place[OF Cons.prems(1) idx Cons.prems(5) nn])
  moreover have "distinct rest" "set rest \<inter> insert idx D = {}" "\<forall>i\<in>set rest. i < length images"
    using Cons.prems by auto
  ultimately have "shelf_inv images padding (insert idx D \<union> set rest)
       (shelf_loop images padding W rest (place images padding W s idx))"
    using Cons.prems(5,6) by (rule Cons.IH)
  then show ?case by simp
qed

lemma sorted_indices_set: "set (sorted_indices images) = {0..<length images}"
  by (simp add: sorted_indices_def sorted_reverse_def)

lemma sorted_indices_distinct: "distinct (sorted_indices images)"
  by (simp add: sorted_indices_def sorted_reverse_def)

lemma shelf_inv_final:
  assumes "0 \<le> padding" "nonneg_images images"
  shows "shelf_inv images padding {0..<length images}
           (shelf_loop images padding W (sorted_indices images) (init_state images padding))"
proof -
  have "shelf_inv images padding ({} \<union> set (sorted_indices images))
           (shelf_loop images padding W (sorted_indices images) (init_state images padding))"
    by (rule shelf_inv_loop[OF shelf_inv_init sorted_indices_distinct _ _ assms])
       (simp_all add: sorted_indices_set)
  then show ?thesis by (simp add: sorted_indices_set)
qed

subsection \<open>pack\_images returns, and what it returns\<close>

lemma valid_images_nonneg: "valid_images images \<Longrightarrow> nonneg_images images"
  by (auto simp add: valid_images_def nonneg_images_def)

lemma total_area_nonneg: "nonneg_images images \<Longrightarrow> 0 \<le> padding \<Longrightarrow> 0 \<le> total_area images padding"
  unfolding total_area_def nonneg_images_def
  by (induction images) auto

lemma total_area_pos:
  "valid_images images \<Longrightarrow> images \<noteq> [] \<Longrightarrow> 0 \<le> padding \<Longrightarrow> 1 \<le> total_area images padding"
proof (induction images)
  case Nil
  then show ?case by simp
next
  case (Cons img rest)
  then have w: "1 \<le> width img + padding" and h: "1 \<le> height img + padding"
    by (auto simp add: valid_images_def)
  then have "1 * 1 \<le> (width img + padding) * (height img + padding)"
    by (intro mult_mono) auto
  moreover have "0 \<le> total_area rest padding"
    using Cons.prems by (intro total_area_nonneg valid_images_nonneg) (auto simp add: valid_images_def)
  ultimately show ?case by (simp add: total_area_def)
qed

lemma ceil_sqrt_Inr: "0 \<le> a \<Longrightarrow> ceil_sqrt a = Inr \<lceil>sqrt (of_int a)\<rceil>"
  by (simp add: ceil_sqrt_def)


lemma paste_size: "width (paste atlas img xy) = width atlas" "height (paste atlas img xy) = height atlas"
  by (cases xy; simp add: paste_def)+

lemma paste_all_size:
  "paste_all imgs pos k a = Inr atlas \<Longrightarrow> width atlas = width a \<and> height atlas = height a"
  by (induction imgs arbitrary: k a) (auto simp add: paste_size split: option.splits)

lemma paste_all_ok:
  "\<forall>i<length imgs. pos ! (k + i) \<noteq> None \<Longrightarrow> \<exists>atlas. paste_all imgs pos k a = Inr atlas"
proof (induction imgs arbitrary: k a)
  case Nil
  then show ?case by simp
next
  case (Cons img rest)
  from Cons.prems have "pos ! (k + 0) \<noteq> None" by blast
  then obtain xy where xy: "pos ! k = Some xy" by auto
  have "\<forall>i<length rest. pos ! (Suc k + i) \<noteq> None"
    using Cons.prems by auto
  from Cons.IH[OF this] xy show ?case by simp
qed

lemma shelf_inv_settled:
  "shelf_inv images padding D s \<Longrightarrow> i \<in> D \<Longrightarrow>
     \<exists>xy. positions s ! i = Some xy \<and> settled images padding s i xy"
  unfolding shelf_inv_def by blast

lemma shelf_inv_disjoint:
  "shelf_inv images padding D s \<Longrightarrow> i \<in> D \<Longrightarrow> j \<in> D \<Longrightarrow> i \<noteq> j \<Longrightarrow>
     positions s ! i = Some a \<Longrightarrow> positions s ! j = Some b \<Longrightarrow>
     padded_disjoint padding (rect_of images i a) (rect_of images j b)"
  unfolding shelf_inv_def by blast

lemma shelf_inv_positions:
  assumes "shelf_inv images padding {0..<length images} s"
  shows "\<forall>i<length images. positions s ! (0 + i) \<noteq> None"
proof (intro allI impI)
  fix i assume "i < length images"
  then have "i \<in> {0..<length images}" by simp
  from shelf_inv_settled[OF assms this] show "positions s ! (0 + i) \<noteq> None" by auto
qed

lemma pack_images_Inr_D:
  assumes "pack_images images padding = Inr (atlas, pos)" "images \<noteq> []"
  shows "\<exists>W. estimate_width images padding = Inr W
           \<and> pos = positions (packed_state images padding W)
           \<and> width atlas = final_size padding W (packed_state images padding W)
           \<and> height atlas = final_size padding W (packed_state images padding W)"
proof (cases "estimate_width images padding")
  case (Inl e)
  with assms show ?thesis by (simp add: pack_images_def)
next
  case (Inr W)
  let ?s = "packed_state images padding W"
  let ?n = "final_size padding W ?s"
  from assms Inr have pa: "paste_all images (positions ?s) 0 (image_new ?n ?n transparent) = Inr atlas"
    and pos: "pos = positions ?s"
    by (auto simp add: pack_images_def packed_state_def Let_def split: sum.splits)
  from paste_all_size[OF pa] have "width atlas = ?n" "height atlas = ?n"
    by (simp_all add: image_new_def)
  with Inr pos show ?thesis by simp
qed

lemma pack_images_Inr_I:
  assumes "images \<noteq> []" "estimate_width images padding = Inr W"
    "\<forall>i<length images. positions (packed_state images padding W) ! (0 + i) \<noteq> None"
  shows "\<exists>atlas. pack_images images padding = Inr (atlas, positions (packed_state images padding W))"
proof -
  let ?s = "packed_state images padding W"
  let ?n = "final_size padding W ?s"
  from paste_all_ok[OF assms(3)] obtain atlas where
    "paste_all images (positions ?s) 0 (image_new ?n ?n transparent) = Inr atlas" by blast
  with assms(1,2) show ?thesis
    by (simp add: pack_images_def packed_state_def Let_def)
qed

lemma estimate_width_ok:
  assumes "nonneg_images images" "0 \<le> padding"
  shows "estimate_width images padding
           = Inr (push_bit (bit_length (\<lceil>sqrt (of_int (total_area images padding))\<rceil> - 1)) 1)"
  using total_area_nonneg[OF assms] by (simp add: estimate_width_def ceil_sqrt_Inr)

lemma pack_images_total:
  assumes "nonneg_images images" "0 \<le> padding"
  shows "\<exists>atlas pos. pack_images images padding = Inr (atlas, pos)"
proof (cases "images = []")
  case True
  then show ?thesis by (simp add: pack_images_def)
next
  case False
  let ?W = "push_bit (bit_length (\<lceil>sqrt (of_int (total_area images padding))\<rceil> - 1)) (1::int)"
  have "shelf_inv images padding {0..<length images} (packed_state images padding ?W)"
    unfolding packed_state_def by (rule shelf_inv_final[OF assms(2,1)])
  from pack_images_Inr_I[OF False estimate_width_ok[OF assms] shelf_inv_positions[OF this]]
  show ?thesis by blast
qed

subsection \<open>Placements and sheet size\<close>


lemma packed_state_inv:
  "nonneg_images images \<Longrightarrow> 0 \<le> padding \<Longrightarrow>
     shelf_inv images padding {0..<length images} (packed_state images padding W)"
  unfolding packed_state_def by (rule shelf_inv_final)







lemma estimate_width_pow2:
  "estimate_width images padding = Inr W \<Longrightarrow> \<exists>k::nat. W = 2 ^ k"
  by (auto simp add: estimate_width_def push_bit_eq_mult split: sum.splits)

lemma next_pow2_smallest:
  assumes "1 \<le> m"
  shows "smallest_pow2_ge m (push_bit (bit_length (m - 1)) 1)"
  unfolding smallest_pow2_ge_def
proof (intro conjI allI impI)
  show "\<exists>k::nat. push_bit (bit_length (m - 1)) (1::int) = 2 ^ k"
    by (auto simp add: push_bit_eq_mult)
  show "m \<le> push_bit (bit_length (m - 1)) (1::int)" by (rule next_pow2_ge)
  fix j :: nat assume "m \<le> 2 ^ j"
  with assms show "push_bit (bit_length (m - 1)) (1::int) \<le> 2 ^ j" by (rule next_pow2_least)
qed

text \<open>
  C6: whenever \<open>pack_images\<close> returns a sheet for a non-empty list, the sheet is square and
  its side is the smallest power of two that is at least \<open>max W H\<close>, where \<open>W\<close> is the
  estimated width and \<open>H = current_y + row_height + padding\<close> the height the packer reached.
\<close>

theorem sheet_square_power_of_two:
  assumes "pack_images images padding = Inr (atlas, pos)" "images \<noteq> []"
  shows "\<exists>W. estimate_width images padding = Inr W
           \<and> width atlas = height atlas
           \<and> smallest_pow2_ge
                (max W (current_y (packed_state images padding W)
                          + row_height (packed_state images padding W) + padding))
                (width atlas)"
proof -
  from pack_images_Inr_D[OF assms] obtain W
    where W: "estimate_width images padding = Inr W"
      and w: "width atlas = final_size padding W (packed_state images padding W)"
      and h: "height atlas = final_size padding W (packed_state images padding W)"
    by blast
  let ?s = "packed_state images padding W"
  let ?m = "max W (current_y ?s + row_height ?s + padding)"
  from estimate_width_pow2[OF W] obtain k :: nat where "W = 2 ^ k" by blast
  then have "1 \<le> W" by simp
  then have "1 \<le> ?m" by simp
  from next_pow2_smallest[OF this] have "smallest_pow2_ge ?m (width atlas)"
    by (simp add: w final_size_def Let_def)
  with W w h show ?thesis by auto
qed

theorem sheet_square_power_of_two_witness:
  "\<exists>atlas pos W. pack_images (scenario blank blank blank) 2 = Inr (atlas, pos)
     \<and> scenario blank blank blank \<noteq> []
     \<and> estimate_width (scenario blank blank blank) 2 = Inr W
     \<and> width atlas = height atlas
     \<and> smallest_pow2_ge
          (max W (current_y (packed_state (scenario blank blank blank) 2 W)
                    + row_height (packed_state (scenario blank blank blank) 2 W) + 2))
          (width atlas)"
proof -
  let ?sc = "scenario blank blank blank"
  from scenario_result[of blank blank blank] obtain atlas
    where res: "pack_images ?sc 2 = Inr (atlas, [Some (2, 2), Some (2, 54), Some (44, 54)])"
    by blast
  have ne: "?sc \<noteq> []" by (simp add: scenario_def)
  from sheet_square_power_of_two[OF res ne] res ne show ?thesis by blast
qed





subsection \<open>Processing order and cursor recurrence\<close>

lemma shelf_loop_other:
  "i \<notin> set idxs \<Longrightarrow> positions (shelf_loop images padding W idxs s) ! i = positions s ! i"
  by (induction idxs arbitrary: s) (auto simp add: place_fields)

lemma shelf_loop_length:
  "length (positions (shelf_loop images padding W idxs s)) = length (positions s)"
  by (induction idxs arbitrary: s) (auto simp add: place_fields)

lemma shelf_loop_spec:
  assumes "distinct idxs" "\<forall>i\<in>set idxs. i < length (positions s)"
  shows "map (\<lambda>i. positions (shelf_loop images padding W idxs s) ! i) idxs
           = map Some (shelf_spec padding W (current_x s, current_y s, row_height s)
                         (map (dims_of images) idxs))"
  using assms
proof (induction idxs arbitrary: s)
  case Nil
  then show ?case by simp
next
  case (Cons idx rest)
  let ?s' = "place images padding W s idx"
  have len: "length (positions ?s') = length (positions s)" by (simp add: place_fields)
  have rest: "map (\<lambda>i. positions (shelf_loop images padding W rest ?s') ! i) rest
           = map Some (shelf_spec padding W (current_x ?s', current_y ?s', row_height ?s')
                         (map (dims_of images) rest))"
    using Cons.prems by (intro Cons.IH) (auto simp add: len)
  have "idx \<notin> set rest" using Cons.prems by simp
  then have first: "positions (shelf_loop images padding W rest ?s') ! idx = positions ?s' ! idx"
    by (rule shelf_loop_other)
  have idx: "idx < length (positions s)" using Cons.prems by simp
  have d: "dims_of images idx = (width (images ! idx), height (images ! idx))"
    by (simp add: dims_of_def)
  show ?case
  proof (cases "current_x s + width (images ! idx) + padding > W")
    case True
    with idx first rest show ?thesis by (simp add: place_fields d)
  next
    case False
    with idx first rest show ?thesis by (simp add: place_fields d)
  qed
qed

lemma sorted_reverse_descending:
  "sorted_wrt (\<lambda>a b. key a \<ge> key b) (sorted_reverse key xs)"
proof -
  have "sorted (map key (sort_key key (rev xs)))" by (rule sorted_sort_key)
  then have "sorted_wrt (\<lambda>a b. key a \<le> key b) (sort_key key (rev xs))"
    by (simp only: sorted_map)
  then show ?thesis by (simp add: sorted_reverse_def sorted_wrt_rev)
qed

lemma sorted_reverse_stable:
  "filter (\<lambda>y. key y = k) (sorted_reverse key xs) = filter (\<lambda>y. key y = k) xs"
proof -
  have "filter (\<lambda>y. key y = k) (sorted_reverse key xs)
          = rev (filter (\<lambda>y. key y = k) (sort_key key (rev xs)))"
    by (simp add: sorted_reverse_def rev_filter)
  also have "\<dots> = rev (filter (\<lambda>y. key y = k) (rev xs))"
    by (simp only: sort_key_stable)
  also have "\<dots> = filter (\<lambda>y. key y = k) xs"
    by (simp add: rev_filter)
  finally show ?thesis .
qed

lemma ties_in_order:
  fixes key :: "nat \<Rightarrow> int"
  assumes "\<And>k. sorted_wrt (<) (filter (\<lambda>y. key y = k) xs)"
  shows "sorted_wrt (\<lambda>i j. key i = key j \<longrightarrow> i < j) xs"
  using assms
proof (induction xs)
  case Nil
  then show ?case by simp
next
  case (Cons x xs)
  have tail: "sorted_wrt (<) (filter (\<lambda>y. key y = k) xs)" for k
    using Cons.prems[of k] by (cases "key x = k") simp_all
  have "x < y" if "y \<in> set xs" "key x = key y" for y
    using Cons.prems[of "key x"] that by auto
  with Cons.IH[OF tail] show ?case by auto
qed

lemma sorted_indices_descending:
  "sorted_wrt (\<lambda>i j. height (images ! i) \<ge> height (images ! j)) (sorted_indices images)"
  unfolding sorted_indices_def by (rule sorted_reverse_descending)

lemma sorted_indices_stable:
  "filter (\<lambda>i. height (images ! i) = h) (sorted_indices images)
     = filter (\<lambda>i. height (images ! i) = h) [0..<length images]"
  unfolding sorted_indices_def by (rule sorted_reverse_stable)

lemma sorted_indices_ties:
  "sorted_wrt (\<lambda>i j. height (images ! i) = height (images ! j) \<longrightarrow> i < j) (sorted_indices images)"
proof (rule ties_in_order)
  fix k
  show "sorted_wrt (<) (filter (\<lambda>y. height (images ! y) = k) (sorted_indices images))"
    by (simp only: sorted_indices_stable) (simp add: sorted_wrt_filter)
qed

lemma packed_state_spec:
  "map (\<lambda>i. positions (packed_state images padding W) ! i) (sorted_indices images)
     = map Some (shelf_spec padding W (padding, padding, 0)
                   (map (dims_of images) (sorted_indices images)))"
proof -
  have "map (\<lambda>i. positions (shelf_loop images padding W (sorted_indices images)
                               (init_state images padding)) ! i) (sorted_indices images)
      = map Some (shelf_spec padding W
                    (current_x (init_state images padding), current_y (init_state images padding),
                     row_height (init_state images padding))
                    (map (dims_of images) (sorted_indices images)))"
    by (rule shelf_loop_spec[OF sorted_indices_distinct])
       (simp add: sorted_indices_set init_state_def)
  then show ?thesis by (simp add: packed_state_def init_state_def)
qed

text \<open>
  C8: the images are processed in the order \<open>sorted_indices\<close>, a permutation of the input
  indices by height descending in which images of equal height keep their input order; and
  the positions \<open>pack_images\<close> returns are, in that order, those of the cursor recurrence
  \<open>shelf_spec\<close> started at \<open>(padding, padding)\<close> with row height 0 and run against the
  estimated width.
\<close>

theorem shelf_order_and_recurrence:
  "distinct (sorted_indices images) \<and> set (sorted_indices images) = {0..<length images}
   \<and> sorted_wrt (\<lambda>i j. height (images ! i) \<ge> height (images ! j)) (sorted_indices images)
   \<and> sorted_wrt (\<lambda>i j. height (images ! i) = height (images ! j) \<longrightarrow> i < j)
        (sorted_indices images)
   \<and> (\<forall>atlas pos W. pack_images images padding = Inr (atlas, pos) \<longrightarrow>
         estimate_width images padding = Inr W \<longrightarrow>
         map (\<lambda>i. pos ! i) (sorted_indices images)
           = map Some (shelf_spec padding W (padding, padding, 0)
                         (map (dims_of images) (sorted_indices images))))"
proof (intro conjI allI impI)
  show "distinct (sorted_indices images)" by (rule sorted_indices_distinct)
  show "set (sorted_indices images) = {0..<length images}" by (rule sorted_indices_set)
  show "sorted_wrt (\<lambda>i j. height (images ! i) \<ge> height (images ! j)) (sorted_indices images)"
    by (rule sorted_indices_descending)
  show "sorted_wrt (\<lambda>i j. height (images ! i) = height (images ! j) \<longrightarrow> i < j)
          (sorted_indices images)"
    by (rule sorted_indices_ties)
next
  fix atlas pos W
  assume res: "pack_images images padding = Inr (atlas, pos)"
    and W: "estimate_width images padding = Inr W"
  show "map (\<lambda>i. pos ! i) (sorted_indices images)
           = map Some (shelf_spec padding W (padding, padding, 0)
                         (map (dims_of images) (sorted_indices images)))"
  proof (cases "images = []")
    case True
    then show ?thesis by (simp add: sorted_indices_def sorted_reverse_def)
  next
    case False
    from pack_images_Inr_D[OF res False] W
    have "pos = positions (packed_state images padding W)" by auto
    then show ?thesis by (simp only: packed_state_spec)
  qed
qed

lemma ties_order: "sorted_indices ties = [1, 0, 2]"
  by (simp add: sorted_indices_def sorted_reverse_def ties_def image_new_def upt_rec)

lemma ties_width: "estimate_width ties 2 = Inr 64"
proof -
  have "total_area ties 2 = 3272" by (simp add: total_area_def ties_def image_new_def)
  moreover have "ceil_sqrt 3272 = Inr 58" by (rule ceil_sqrt_eqI) simp_all
  ultimately show ?thesis by (simp add: estimate_width_def bit_length_def bitlen.simps)
qed

lemma ties_nonneg: "nonneg_images ties"
  by (simp add: nonneg_images_def ties_def image_new_def)

theorem shelf_order_and_recurrence_witness:
  "sorted_indices ties = [1, 0, 2]
   \<and> (\<exists>atlas pos. pack_images ties 2 = Inr (atlas, pos)
        \<and> estimate_width ties 2 = Inr 64
        \<and> [pos ! 1, pos ! 0, pos ! 2] = [Some (2, 2), Some (2, 54), Some (24, 54)])"
proof -
  from pack_images_total[OF ties_nonneg, of 2] obtain atlas pos
    where res: "pack_images ties 2 = Inr (atlas, pos)" by auto
  from shelf_order_and_recurrence[of ties 2] res ties_width
  have "map (\<lambda>i. pos ! i) (sorted_indices ties)
           = map Some (shelf_spec 2 64 (2, 2, 0) (map (dims_of ties) (sorted_indices ties)))"
    by blast
  then have "[pos ! 1, pos ! 0, pos ! 2] = [Some (2, 2), Some (2, 54), Some (24, 54)]"
    by (simp add: ties_order) (simp add: dims_of_def ties_def image_new_def)
  with res ties_width ties_order show ?thesis by blast
qed

subsection \<open>The layout does not read the texels\<close>

lemma same_dims_length: "same_dims a b \<Longrightarrow> length a = length b"
  unfolding same_dims_def by (metis length_map)

lemma same_dims_nth:
  assumes "same_dims a b" "i < length a"
  shows "width (a ! i) = width (b ! i)" "height (a ! i) = height (b ! i)"
proof -
  have lb: "i < length b" using assms same_dims_length by simp
  from assms(1) have "map width a ! i = map width b ! i" "map height a ! i = map height b ! i"
    by (simp_all add: same_dims_def)
  with assms(2) lb show "width (a ! i) = width (b ! i)" "height (a ! i) = height (b ! i)"
    by simp_all
qed

lemma total_area_dims:
  "total_area images padding
     = sum_list (map (\<lambda>(w, h). (w + padding) * (h + padding))
                  (zip (map width images) (map height images)))"
  unfolding total_area_def by (induction images) simp_all

lemma same_dims_total_area: "same_dims a b \<Longrightarrow> total_area a padding = total_area b padding"
  by (simp add: total_area_dims same_dims_def)

lemma same_dims_estimate_width:
  "same_dims a b \<Longrightarrow> estimate_width a padding = estimate_width b padding"
  by (simp add: estimate_width_def same_dims_total_area)

lemma insort_key_agree:
  "f x = g x \<Longrightarrow> \<forall>y\<in>set ys. f y = g y \<Longrightarrow> insort_key f x ys = insort_key g x ys"
  by (induction ys) simp_all

lemma sort_key_agree:
  "\<forall>x\<in>set xs. f x = g x \<Longrightarrow> sort_key f xs = sort_key g xs"
proof (induction xs)
  case Nil
  then show ?case by simp
next
  case (Cons x xs)
  then have "sort_key f xs = sort_key g xs" by simp
  moreover have "insort_key f x (sort_key g xs) = insort_key g x (sort_key g xs)"
    using Cons.prems by (intro insort_key_agree) simp_all
  ultimately show ?case by simp
qed

lemma same_dims_sorted_indices:
  assumes "same_dims a b"
  shows "sorted_indices a = sorted_indices b"
proof -
  have "sort_key (\<lambda>i. height (a ! i)) (rev [0..<length a])
          = sort_key (\<lambda>i. height (b ! i)) (rev [0..<length a])"
    by (rule sort_key_agree) (simp add: same_dims_nth[OF assms])
  then show ?thesis
    by (simp add: sorted_indices_def sorted_reverse_def same_dims_length[OF assms])
qed

lemma same_dims_place:
  assumes "same_dims a b" "idx < length a"
  shows "place a padding W s idx = place b padding W s idx"
  by (simp add: place_def Let_def same_dims_nth[OF assms])

lemma same_dims_shelf_loop:
  assumes "same_dims a b" "\<forall>i\<in>set idxs. i < length a"
  shows "shelf_loop a padding W idxs s = shelf_loop b padding W idxs s"
  using assms(2)
proof (induction idxs arbitrary: s)
  case Nil
  then show ?case by simp
next
  case (Cons idx rest)
  then have "place a padding W s idx = place b padding W s idx"
    by (intro same_dims_place[OF assms(1)]) simp
  with Cons show ?case by simp
qed

lemma same_dims_packed_state:
  assumes "same_dims a b"
  shows "packed_state a padding W = packed_state b padding W"
proof -
  have "shelf_loop a padding W (sorted_indices a) (init_state a padding)
          = shelf_loop b padding W (sorted_indices a) (init_state a padding)"
    by (rule same_dims_shelf_loop[OF assms]) (simp add: sorted_indices_set)
  then show ?thesis
    by (simp add: packed_state_def same_dims_sorted_indices[OF assms] init_state_def
        same_dims_length[OF assms])
qed

lemma paste_all_status:
  assumes "length a = length b"
  shows "(\<exists>e. paste_all a pos k A = Inl e \<and> paste_all b pos k B = Inl e)
       \<or> (\<exists>A' B'. paste_all a pos k A = Inr A' \<and> paste_all b pos k B = Inr B')"
  using assms
proof (induction a b arbitrary: k A B rule: list_induct2)
  case Nil
  then show ?case by simp
next
  case (Cons x xs y ys)
  show ?case
  proof (cases "pos ! k")
    case None
    then show ?thesis by simp
  next
    case (Some xy)
    with Cons.IH[of "Suc k" "paste A x xy" "paste B y xy"] show ?thesis by simp
  qed
qed

lemma pack_images_layout:
  assumes "images \<noteq> []"
  shows "result_layout (pack_images images padding)
     = (case estimate_width images padding of
          Inl e \<Rightarrow> Inl e
        | Inr W \<Rightarrow>
            (case paste_all images (positions (packed_state images padding W)) 0
                    (image_new 1 1 transparent) of
               Inl e \<Rightarrow> Inl e
             | Inr atlas \<Rightarrow>
                 Inr (final_size padding W (packed_state images padding W),
                      final_size padding W (packed_state images padding W),
                      positions (packed_state images padding W))))"
proof (cases "estimate_width images padding")
  case (Inl e)
  with assms show ?thesis by (simp add: pack_images_def result_layout_def)
next
  case (Inr W)
  let ?s = "packed_state images padding W"
  let ?n = "final_size padding W ?s"
  from paste_all_status[OF refl, of images "positions ?s" 0 "image_new ?n ?n transparent" "image_new 1 1 transparent"]
  show ?thesis
  proof (elim disjE exE conjE)
    fix e
    assume "paste_all images (positions ?s) 0 (image_new ?n ?n transparent) = Inl e"
      "paste_all images (positions ?s) 0 (image_new 1 1 transparent) = Inl e"
    with assms Inr show ?thesis
      by (simp add: pack_images_def result_layout_def packed_state_def Let_def)
  next
    fix A' B'
    assume a: "paste_all images (positions ?s) 0 (image_new ?n ?n transparent) = Inr A'"
      and b: "paste_all images (positions ?s) 0 (image_new 1 1 transparent) = Inr B'"
    from paste_all_size[OF a] have "width A' = ?n" "height A' = ?n" by (simp_all add: image_new_def)
    with a b assms Inr show ?thesis
      by (simp add: pack_images_def result_layout_def Let_def flip: packed_state_def)
  qed
qed

text \<open>
  C10: two lists of images that agree pairwise in width and height (and so in length) give,
  for the same padding, the same outcome of \<open>pack_images\<close> as far as the layout goes: the
  same error, or the same sheet width, sheet height and list of positions. The texels of the
  images have no influence on the layout.
\<close>

theorem layout_independent_of_pixels:
  assumes "map width a = map width b" "map height a = map height b"
  shows "result_layout (pack_images a padding) = result_layout (pack_images b padding)"
proof (cases "a = []")
  case True
  with assms have "b = []" by simp
  with True show ?thesis by simp
next
  case False
  from assms have sd: "same_dims a b" by (simp add: same_dims_def)
  from False same_dims_length[OF sd] have nb: "b \<noteq> []" by auto
  show ?thesis
  proof (cases "estimate_width a padding")
    case (Inl e)
    with same_dims_estimate_width[OF sd, of padding]
    have eb: "estimate_width b padding = Inl e" by simp
    show ?thesis by (simp add: pack_images_layout False nb Inl eb)
  next
    case (Inr W)
    with same_dims_estimate_width[OF sd, of padding]
    have eb: "estimate_width b padding = Inr W" by simp
    have ps: "packed_state a padding W = packed_state b padding W"
      by (rule same_dims_packed_state[OF sd])
    from paste_all_status[OF same_dims_length[OF sd], of "positions (packed_state b padding W)" 0
        "image_new 1 1 transparent" "image_new 1 1 transparent"]
    show ?thesis
      by (auto simp add: pack_images_layout False nb Inr eb ps)
  qed
qed

theorem layout_independent_of_pixels_witness:
  "map width [image_new 20 50 transparent] = map width [image_new 20 50 white]
   \<and> map height [image_new 20 50 transparent] = map height [image_new 20 50 white]
   \<and> [image_new 20 50 transparent] \<noteq> [image_new 20 50 white]
   \<and> result_layout (pack_images [image_new 20 50 transparent] 2)
       = result_layout (pack_images [image_new 20 50 white] 2)"
proof -
  have w: "map width [image_new 20 50 transparent] = map width [image_new 20 50 white]"
    and h: "map height [image_new 20 50 transparent] = map height [image_new 20 50 white]"
    by (simp_all add: image_new_def)
  have "pixels (image_new 20 50 transparent) 0 0 \<noteq> pixels (image_new 20 50 white) 0 0"
    by (simp add: image_new_def transparent_def white_def)
  then have "image_new 20 50 transparent \<noteq> image_new 20 50 white" by auto
  with w h layout_independent_of_pixels[OF w h, of 2] show ?thesis by simp
qed

subsection \<open>The concrete scenario and the empty list\<close>

text \<open>
  C1: the scenario with padding 2. The images are processed in the order img2, img1,
  img3 (indices 0, 1, 2), the estimated width is 64, the sheet is 128 x 128 and the
  rectangles are \<open>(2, 2, 20, 50)\<close>, \<open>(2, 54, 40, 30)\<close> and \<open>(44, 54, 10, 10)\<close>.
\<close>

theorem concrete_scenario:
  "sorted_indices (scenario p2 p1 p3) = [0, 1, 2]
   \<and> estimate_width (scenario p2 p1 p3) 2 = Inr 64
   \<and> result_layout (pack_images (scenario p2 p1 p3) 2)
        = Inr (128, 128, [Some (2, 2), Some (2, 54), Some (44, 54)])
   \<and> map (icon_rect (scenario p2 p1 p3) [Some (2, 2), Some (2, 54), Some (44, 54)]) [0, 1, 2]
        = [Inr (2, 2, 20, 50), Inr (2, 54, 40, 30), Inr (44, 54, 10, 10)]"
proof -
  from scenario_result[of p2 p1 p3] have
    "result_layout (pack_images (scenario p2 p1 p3) 2)
        = Inr (128, 128, [Some (2, 2), Some (2, 54), Some (44, 54)])"
    by (auto simp add: result_layout_def)
  moreover have
    "map (icon_rect (scenario p2 p1 p3) [Some (2, 2), Some (2, 54), Some (44, 54)]) [0, 1, 2]
        = [Inr (2, 2, 20, 50), Inr (2, 54, 40, 30), Inr (44, 54, 10, 10)]"
    by (simp add: icon_rect_def scenario_def)
  ultimately show ?thesis by (simp add: scenario_order scenario_width)
qed

text \<open>
  C5: on the empty list \<open>pack_images\<close> succeeds and returns a 1 x 1 sheet whose only
  texel is transparent, together with an empty list of positions.
\<close>

theorem pack_images_empty:
  "pack_images [] padding = Inr (image_new 1 1 transparent, [])
   \<and> width (image_new 1 1 transparent) = 1
   \<and> height (image_new 1 1 transparent) = 1
   \<and> getpixel (image_new 1 1 transparent) (0, 0) = Inr (0, 0, 0, 0)"
  by (simp add: pack_images_def image_new_def getpixel_def transparent_def)

subsection \<open>An image wider than the estimated width\<close>

lemma wide_width: "estimate_width [image_new 100 1 white] 0 = Inr 16"
proof -
  have "ceil_sqrt 100 = Inr 10" by (rule ceil_sqrt_eqI) simp_all
  then show ?thesis
    by (simp add: estimate_width_def total_area_def image_new_def bit_length_def bitlen.simps)
qed

lemma wide_loop:
  "shelf_loop [image_new 100 1 white] 0 16 (sorted_indices [image_new 100 1 white])
     (init_state [image_new 100 1 white] 0)
   = \<lparr>current_x = 100, current_y = 0, row_height = 1, positions = [Some (0, 0)]\<rparr>"
proof -
  have "sorted_indices [image_new 100 1 white] = [0]"
    by (simp add: sorted_indices_def sorted_reverse_def)
  then show ?thesis by (simp add: init_state_def place_def image_new_def Let_def)
qed

lemma wide_size:
  "final_size 0 16 \<lparr>current_x = 100, current_y = 0, row_height = 1, positions = [Some (0, 0)]\<rparr> = 16"
  by (simp add: final_size_def bit_length_def bitlen.simps)

lemma wide_result:
  "pack_images [image_new 100 1 white] 0
     = Inr (paste (image_new 16 16 transparent) (image_new 100 1 white) (0, 0), [Some (0, 0)])"
  by (simp add: pack_images_def wide_width wide_loop wide_size Let_def)

text \<open>
  C2 at one opaque white image of 100 x 1 with padding 0: the estimated width is 16, the
  image is placed at \<open>(0, 0)\<close> and the sheet is 16 x 16, so the rectangle
  \<open>(0, 0, 100, 1)\<close> of the image does not lie inside the sheet.
\<close>

theorem wide_image_outside_sheet:
  "result_layout (pack_images [image_new 100 1 white] 0) = Inr (16, 16, [Some (0, 0)])
   \<and> icon_rect [image_new 100 1 white] [Some (0, 0)] 0 = Inr (0, 0, 100, 1)
   \<and> \<not> inside_sheet (16, 16) (0, 0, 100, 1)"
  by (simp add: wide_result result_layout_def paste_size icon_rect_def inside_sheet_def)
     (simp add: image_new_def)

text \<open>
  C9 at the same input: the texel \<open>(16, 0)\<close> of the image is white, and the sheet has no
  texel at the place \<open>(0 + 16, 0 + 0)\<close> where the rectangle of the image puts it.
\<close>

theorem wide_image_texels_lost:
  "(case pack_images [image_new 100 1 white] 0 of
      Inl e \<Rightarrow> False
    | Inr (atlas, pos) \<Rightarrow>
        pos = [Some (0, 0)]
        \<and> getpixel (image_new 100 1 white) (16, 0) = Inr white
        \<and> getpixel atlas (0 + 16, 0 + 0) = Inl IndexError)"
  by (simp add: wide_result getpixel_def paste_size) (simp add: image_new_def)

subsection \<open>What holds when every image fits into the estimated width\<close>

lemma fits_inv_place:
  assumes "fits_inv images padding W D s" "idx < length (positions s)"
    "width (images ! idx) + 2 * padding \<le> W"
  shows "fits_inv images padding W (insert idx D) (place images padding W s idx)"
  unfolding fits_inv_def
proof
  fix i assume i: "i \<in> insert idx D"
  show "\<exists>x y. positions (place images padding W s idx) ! i = Some (x, y)
           \<and> x + width (images ! i) + padding \<le> W"
  proof (cases "i = idx")
    case True
    with assms(2,3) show ?thesis by (auto simp add: place_fields)
  next
    case False
    with i have "i \<in> D" by simp
    with assms(1) False show ?thesis by (simp add: fits_inv_def place_fields)
  qed
qed

lemma fits_inv_loop:
  assumes "fits_inv images padding W D s" "\<forall>i\<in>set idxs. i < length (positions s)"
    "\<forall>i\<in>set idxs. width (images ! i) + 2 * padding \<le> W"
  shows "fits_inv images padding W (D \<union> set idxs) (shelf_loop images padding W idxs s)"
  using assms
proof (induction idxs arbitrary: D s)
  case Nil
  then show ?case by simp
next
  case (Cons idx rest)
  let ?s' = "place images padding W s idx"
  have "fits_inv images padding W (insert idx D) ?s'"
    using Cons.prems by (intro fits_inv_place) simp_all
  moreover have "\<forall>i\<in>set rest. i < length (positions ?s')"
    using Cons.prems by (simp add: place_fields)
  moreover have "\<forall>i\<in>set rest. width (images ! i) + 2 * padding \<le> W"
    using Cons.prems by simp
  ultimately have "fits_inv images padding W (insert idx D \<union> set rest)
      (shelf_loop images padding W rest ?s')"
    by (rule Cons.IH)
  then show ?case by simp
qed

lemma packed_state_fits:
  assumes "\<forall>img\<in>set images. width img + 2 * padding \<le> W"
  shows "fits_inv images padding W {0..<length images} (packed_state images padding W)"
proof -
  have "fits_inv images padding W ({} \<union> set (sorted_indices images))
      (shelf_loop images padding W (sorted_indices images) (init_state images padding))"
  proof (rule fits_inv_loop)
    show "fits_inv images padding W {} (init_state images padding)"
      by (simp add: fits_inv_def)
    show "\<forall>i\<in>set (sorted_indices images). i < length (positions (init_state images padding))"
      by (simp add: sorted_indices_set init_state_def)
    show "\<forall>i\<in>set (sorted_indices images). width (images ! i) + 2 * padding \<le> W"
      using assms by (simp add: sorted_indices_set)
  qed
  then show ?thesis by (simp add: packed_state_def sorted_indices_set)
qed

lemma final_size_ge:
  "W \<le> final_size padding W s" "current_y s + row_height s + padding \<le> final_size padding W s"
proof -
  let ?m = "max W (current_y s + row_height s + padding)"
  have "?m \<le> push_bit (bit_length (?m - 1)) 1" by (rule next_pow2_ge)
  then show "W \<le> final_size padding W s"
    "current_y s + row_height s + padding \<le> final_size padding W s"
    by (simp_all add: final_size_def Let_def)
qed

text \<open>
  The vertical half of containment holds for all images of positive size: every rectangle
  ends, padding included, above the lower edge of the sheet.
\<close>

lemma placement_above_lower_edge:
  assumes "nonneg_images images" "0 \<le> padding"
    "pack_images images padding = Inr (atlas, pos)" "i < length images"
  shows "\<exists>x y. pos ! i = Some (x, y) \<and> padding \<le> x \<and> padding \<le> y
           \<and> y + height (images ! i) + padding \<le> height atlas"
proof -
  from assms(4) have ne: "images \<noteq> []" by auto
  from pack_images_Inr_D[OF assms(3) ne] obtain W
    where pos: "pos = positions (packed_state images padding W)"
      and h: "height atlas = final_size padding W (packed_state images padding W)"
    by blast
  let ?s = "packed_state images padding W"
  have inv: "shelf_inv images padding {0..<length images} ?s"
    by (rule packed_state_inv[OF assms(1,2)])
  then have rh: "0 \<le> row_height ?s" by (simp add: shelf_inv_def)
  from assms(4) have "i \<in> {0..<length images}" by simp
  from shelf_inv_settled[OF inv this] obtain x y
    where p: "positions ?s ! i = Some (x, y)" and st: "settled images padding ?s i (x, y)"
    by auto
  from st rh assms(2) have "padding \<le> x" "padding \<le> y"
    "y + height (images ! i) + padding \<le> current_y ?s + row_height ?s + padding"
    by (auto simp add: settled_def)
  with final_size_ge(2)[of ?s padding W] p pos h show ?thesis by auto
qed

text \<open>
  Containment holds when no image is wider than the estimated width allows: if
  \<open>width + 2 * padding \<le> W\<close> for every image, every rectangle lies inside the sheet.
\<close>

lemma contained_when_fits:
  assumes "nonneg_images images" "0 \<le> padding"
    "pack_images images padding = Inr (atlas, pos)"
    "estimate_width images padding = Inr W"
    "\<forall>img\<in>set images. width img + 2 * padding \<le> W"
    "i < length images"
  shows "\<exists>r. icon_rect images pos i = Inr r \<and> inside_sheet (width atlas, height atlas) r"
proof -
  from assms(6) have ne: "images \<noteq> []" by auto
  from pack_images_Inr_D[OF assms(3) ne] assms(4)
  have pos: "pos = positions (packed_state images padding W)"
    and w: "width atlas = final_size padding W (packed_state images padding W)"
    by auto
  let ?s = "packed_state images padding W"
  from placement_above_lower_edge[OF assms(1,2,3,6)] obtain x y
    where p: "pos ! i = Some (x, y)" and y: "y + height (images ! i) + padding \<le> height atlas"
    by blast
  from assms(6) have mem: "i \<in> {0..<length images}" by simp
  from packed_state_fits[OF assms(5), unfolded fits_inv_def, rule_format, OF mem]
  obtain x' y' where "positions ?s ! i = Some (x', y')" "x' + width (images ! i) + padding \<le> W"
    by blast
  with p pos have "x + width (images ! i) + padding \<le> W" by simp
  with final_size_ge(1)[of W padding ?s] w assms(2)
  have "x + width (images ! i) \<le> width atlas" by simp
  with y assms(2) p show ?thesis by (simp add: icon_rect_def inside_sheet_def)
qed

subsection \<open>Texels of the composed sheet\<close>

lemma paste_pixels:
  "pixels (paste atlas img (x, y)) px py =
     (if in_rect (px, py) (x, y, width img, height img)
         \<and> 0 \<le> px \<and> px < width atlas \<and> 0 \<le> py \<and> py < height atlas
      then pixels img (px - x) (py - y) else pixels atlas px py)"
  by (simp add: paste_def in_rect_def)

lemma paste_all_untouched:
  assumes "paste_all imgs pos k A = Inr A'"
    "\<forall>j<length imgs. \<forall>xy. pos ! (k + j) = Some xy \<longrightarrow>
        \<not> in_rect (px, py) (rect_of imgs j xy)"
  shows "pixels A' px py = pixels A px py"
  using assms
proof (induction imgs arbitrary: k A)
  case Nil
  then show ?case by simp
next
  case (Cons img rest)
  from Cons.prems(1) obtain xy where xy: "pos ! k = Some xy"
    and rest: "paste_all rest pos (Suc k) (paste A img xy) = Inr A'"
    by (auto split: option.splits)
  from Cons.prems(2)[rule_format, of 0 xy] xy
  have "\<not> in_rect (px, py) (rect_of (img # rest) 0 xy)" by simp
  then have out: "pixels (paste A img xy) px py = pixels A px py"
    by (cases xy) (simp add: paste_pixels rect_of_def)
  have "\<forall>j<length rest. \<forall>xy. pos ! (Suc k + j) = Some xy \<longrightarrow>
        \<not> in_rect (px, py) (rect_of rest j xy)"
  proof (intro allI impI)
    fix j xy assume j: "j < length rest" "pos ! (Suc k + j) = Some xy"
    with Cons.prems(2)[rule_format, of "Suc j" xy]
    have "\<not> in_rect (px, py) (rect_of (img # rest) (Suc j) xy)" by simp
    then show "\<not> in_rect (px, py) (rect_of rest j xy)" by (simp add: rect_of_def)
  qed
  from Cons.IH[OF rest this] out show ?case by simp
qed

lemma paste_all_pixels:
  assumes "paste_all imgs pos k A = Inr A'" "i < length imgs" "pos ! (k + i) = Some (x, y)"
    "in_rect (px, py) (rect_of imgs i (x, y))"
    "0 \<le> px" "px < width A" "0 \<le> py" "py < height A"
    "\<forall>j<length imgs. j \<noteq> i \<longrightarrow> (\<forall>xy. pos ! (k + j) = Some xy \<longrightarrow>
        \<not> in_rect (px, py) (rect_of imgs j xy))"
  shows "pixels A' px py = pixels (imgs ! i) (px - x) (py - y)"
  using assms
proof (induction imgs arbitrary: k A i)
  case Nil
  then show ?case by simp
next
  case (Cons img rest)
  from Cons.prems(1) obtain xy where xy: "pos ! k = Some xy"
    and rest: "paste_all rest pos (Suc k) (paste A img xy) = Inr A'"
    by (auto split: option.splits)
  show ?case
  proof (cases i)
    case 0
    with Cons.prems(3) xy have xy': "xy = (x, y)" by simp
    have "\<forall>j<length rest. \<forall>xy. pos ! (Suc k + j) = Some xy \<longrightarrow>
        \<not> in_rect (px, py) (rect_of rest j xy)"
    proof (intro allI impI)
      fix j xy assume j: "j < length rest" "pos ! (Suc k + j) = Some xy"
      with Cons.prems(9)[rule_format, of "Suc j" xy] 0
      have "\<not> in_rect (px, py) (rect_of (img # rest) (Suc j) xy)" by simp
      then show "\<not> in_rect (px, py) (rect_of rest j xy)" by (simp add: rect_of_def)
    qed
    from paste_all_untouched[OF rest this]
    have "pixels A' px py = pixels (paste A img (x, y)) px py" by (simp add: xy')
    also have "\<dots> = pixels img (px - x) (py - y)"
      using Cons.prems(4-8) 0 by (simp add: paste_pixels rect_of_def)
    finally show ?thesis using 0 by simp
  next
    case (Suc i')
    from Cons.prems(9)[rule_format, of 0 xy] xy Suc
    have "\<not> in_rect (px, py) (rect_of (img # rest) 0 xy)" by simp
    then have out: "pixels (paste A img xy) px py = pixels A px py"
      by (cases xy) (simp add: paste_pixels rect_of_def)
    have others: "\<forall>j<length rest. j \<noteq> i' \<longrightarrow> (\<forall>xy. pos ! (Suc k + j) = Some xy \<longrightarrow>
        \<not> in_rect (px, py) (rect_of rest j xy))"
    proof (intro allI impI)
      fix j xy assume j: "j < length rest" "j \<noteq> i'" "pos ! (Suc k + j) = Some xy"
      with Cons.prems(9)[rule_format, of "Suc j" xy] Suc
      have "\<not> in_rect (px, py) (rect_of (img # rest) (Suc j) xy)" by simp
      then show "\<not> in_rect (px, py) (rect_of rest j xy)" by (simp add: rect_of_def)
    qed
    have "pixels A' px py = pixels (rest ! i') (px - x) (py - y)"
    proof (rule Cons.IH[OF rest _ _ _ _ _ _ _ others])
      show "i' < length rest" using Cons.prems(2) Suc by simp
      show "pos ! (Suc k + i') = Some (x, y)" using Cons.prems(3) Suc by simp
      show "in_rect (px, py) (rect_of rest i' (x, y))"
        using Cons.prems(4) Suc by (simp add: rect_of_def)
      show "0 \<le> px" "px < width (paste A img xy)" "0 \<le> py" "py < height (paste A img xy)"
        using Cons.prems(5-8) by (simp_all add: paste_size)
    qed
    with Suc show ?thesis by simp
  qed
qed

lemma padded_disjoint_not_both:
  assumes "padded_disjoint padding a b" "0 \<le> padding" "in_rect p a"
  shows "\<not> in_rect p b"
  using assms by (cases p, cases a, cases b) (auto simp add: padded_disjoint_def in_rect_def)

text \<open>
  Pixel fidelity holds when every image fits: if \<open>width + 2 * padding \<le> W\<close> for every
  image, each texel of each image is found in the sheet at the offset of its rectangle.
\<close>

lemma texels_kept_when_fits:
  assumes "valid_images images" "0 \<le> padding"
    "pack_images images padding = Inr (atlas, pos)"
    "estimate_width images padding = Inr W"
    "\<forall>img\<in>set images. width img + 2 * padding \<le> W"
    "i < length images" "pos ! i = Some (x, y)"
    "0 \<le> dx" "dx < width (images ! i)" "0 \<le> dy" "dy < height (images ! i)"
  shows "getpixel atlas (x + dx, y + dy) = getpixel (images ! i) (dx, dy)"
proof -
  have nn: "nonneg_images images" using assms(1) by (rule valid_images_nonneg)
  from assms(6) have ne: "images \<noteq> []" by auto
  let ?s = "packed_state images padding W"
  let ?n = "final_size padding W ?s"
  from assms(3,4) ne have pa: "paste_all images pos 0 (image_new ?n ?n transparent) = Inr atlas"
    and pos: "pos = positions ?s"
    by (auto simp add: pack_images_def packed_state_def Let_def split: sum.splits)
  from paste_all_size[OF pa] have size: "width atlas = ?n" "height atlas = ?n"
    by (simp_all add: image_new_def)
  from contained_when_fits[OF nn assms(2,3,4,5,6)] assms(7)
  have inside: "x + width (images ! i) \<le> width atlas" "y + height (images ! i) \<le> height atlas"
    by (simp_all add: icon_rect_def inside_sheet_def)
  from placement_above_lower_edge[OF nn assms(2,3,6)] assms(7,2)
  have low: "0 \<le> x" "0 \<le> y" by auto
  have inv: "shelf_inv images padding {0..<length images} ?s"
    by (rule packed_state_inv[OF nn assms(2)])
  have here: "in_rect (x + dx, y + dy) (rect_of images i (x, y))"
    using assms(8-11) by (simp add: in_rect_def rect_of_def)
  have others: "\<forall>j<length images. j \<noteq> i \<longrightarrow> (\<forall>xy. pos ! (0 + j) = Some xy \<longrightarrow>
        \<not> in_rect (x + dx, y + dy) (rect_of images j xy))"
  proof (intro allI impI)
    fix j xy assume j: "j < length images" "j \<noteq> i" "pos ! (0 + j) = Some xy"
    from assms(6) j(1) have mem: "i \<in> {0..<length images}" "j \<in> {0..<length images}" by simp_all
    from j(2) have "i \<noteq> j" by simp
    from shelf_inv_disjoint[OF inv mem this] assms(7) j(3) pos
    have "padded_disjoint padding (rect_of images i (x, y)) (rect_of images j xy)" by simp
    from padded_disjoint_not_both[OF this assms(2) here]
    show "\<not> in_rect (x + dx, y + dy) (rect_of images j xy)" .
  qed
  have "pixels atlas (x + dx) (y + dy) = pixels (images ! i) (x + dx - x) (y + dy - y)"
  proof (rule paste_all_pixels[OF pa assms(6) _ here _ _ _ _ others])
    show "pos ! (0 + i) = Some (x, y)" using assms(7) by simp
    show "0 \<le> x + dx" "0 \<le> y + dy" using low assms(8,10) by simp_all
    show "x + dx < width (image_new ?n ?n transparent)"
      using inside(1) assms(9) size by (simp add: image_new_def)
    show "y + dy < height (image_new ?n ?n transparent)"
      using inside(2) assms(11) size by (simp add: image_new_def)
  qed
  then have "pixels atlas (x + dx) (y + dy) = pixels (images ! i) dx dy" by simp
  with low inside assms(8-11) show ?thesis by (simp add: getpixel_def)
qed

end
